theory Spec2Isabelle
  imports Complex_Main "HOL-Library.Char_ord" "HOL-Library.List_Lexorder"
begin

section \<open>JavaScript values\<close>

text \<open>
  Both diff functions take arguments of type \<open>any\<close>. The values they receive come from
  \<open>JSON.parse\<close>, so a value is \<open>null\<close>, a boolean, a number, a string, an array or
  an object; \<open>undefined\<close> is added because both functions test for it. A number is
  the real it denotes: the code only compares numbers with \<open>!==\<close> and prints them, and
  \<open>JSON.parse\<close> never yields \<open>NaN\<close>. A string is its list of code units (of which
  \<open>char\<close> has the first 256). An object is the association list of its own enumerable
  properties in the order of their creation, which for a parsed object is the order of
  the text.

  \<open>key in v\<close> and \<open>v[key]\<close> also find the properties a parsed object or array inherits
  from \<open>Object.prototype\<close> and \<open>Array.prototype\<close>, so the values the functions can reach
  include the two prototype objects and the built-in functions they hold. A built-in
  function is named by the prototype that holds it and the name of the property.
\<close>

datatype prototype = ObjectPrototype | ArrayPrototype

datatype jsval =
    JUndefined
  | JNull
  | JBool bool
  | JNum real
  | JStr string
  | JFunction prototype string
  | JPrototype prototype
  | JArr "jsval list"
  | JObj "(string \<times> jsval) list"

text \<open>
  The \<open>typeof\<close> operator: \<open>null\<close>, arrays, objects and the prototype objects all give
  \<open>'object'\<close>.
\<close>

datatype jstype = TyUndefined | TyObject | TyBoolean | TyNumber | TyString | TyFunction

fun typeof :: "jsval \<Rightarrow> jstype" where
  "typeof JUndefined = TyUndefined"
| "typeof JNull = TyObject"
| "typeof (JBool b) = TyBoolean"
| "typeof (JNum n) = TyNumber"
| "typeof (JStr s) = TyString"
| "typeof (JFunction h n) = TyFunction"
| "typeof (JPrototype h) = TyObject"
| "typeof (JArr xs) = TyObject"
| "typeof (JObj kvs) = TyObject"

text \<open>
  \<open>Array.isArray\<close>, \<open>.length\<close> and \<open>xs[i]\<close> for a numeric index (out of range:
  \<open>undefined\<close>). \<open>Array.prototype\<close> is itself an array, of length \<open>0\<close>.
\<close>

fun isArray :: "jsval \<Rightarrow> bool" where
  "isArray (JArr xs) = True"
| "isArray (JPrototype ArrayPrototype) = True"
| "isArray v = False"

fun arr_length :: "jsval \<Rightarrow> nat" where
  "arr_length (JArr xs) = length xs"
| "arr_length v = 0"

fun js_index :: "jsval \<Rightarrow> nat \<Rightarrow> jsval" where
  "js_index (JArr xs) i = (if i < length xs then xs ! i else JUndefined)"
| "js_index v i = JUndefined"

text \<open>
  \<open>String(i)\<close> for an array index and \<open>parseInt\<close> on a string of decimal digits
  (\<open>None\<close> is \<open>NaN\<close>: the string does not start with a digit).
\<close>

definition digit_char :: "nat \<Rightarrow> char" where
  "digit_char d = char_of (48 + d)"

fun show_nat :: "nat \<Rightarrow> string" where
  "show_nat n =
     (if n < 10 then [digit_char n] else show_nat (n div 10) @ [digit_char (n mod 10)])"

declare show_nat.simps [simp del]

definition is_digit :: "char \<Rightarrow> bool" where
  "is_digit c = (48 \<le> (of_char c :: nat) \<and> (of_char c :: nat) \<le> 57)"

definition parseInt :: "string \<Rightarrow> nat option" where
  "parseInt s =
     (let ds = takeWhile is_digit s in
      if ds = [] then None
      else Some (fold (\<lambda>c n. 10 * n + (of_char c - 48)) ds 0))"

text \<open>
  A property key is an array index when it is the decimal string of an integer from
  \<open>0\<close> to \<open>2\<^sup>3\<^sup>2 - 2\<close>. \<open>Object.keys(v)\<close> lists the own enumerable keys of an object
  with the array indices first, in ascending numeric order, and then the other keys in
  the order of their creation; the keys of an array are its indices. The prototype
  objects have no enumerable property.
\<close>

definition array_index :: "string \<Rightarrow> nat option" where
  "array_index k =
     (case parseInt k of
        Some i \<Rightarrow> (if show_nat i = k \<and> i < 2 ^ 32 - 1 then Some i else None)
      | None \<Rightarrow> None)"

fun Object_keys :: "jsval \<Rightarrow> string list" where
  "Object_keys (JObj kvs) =
     map show_nat (sort (List.map_filter array_index (map fst kvs)))
     @ filter (\<lambda>k. array_index k = None) (map fst kvs)"
| "Object_keys (JArr xs) = map show_nat [0..<length xs]"
| "Object_keys v = []"

text \<open>
  The run-time environment: the names of the string-keyed own properties of
  \<open>Object.prototype\<close> and of \<open>Array.prototype\<close> (other than its \<open>length\<close>). They differ
  between versions of the language, so they are a parameter. Every such property holds
  a built-in function, except the accessor \<open>__proto__\<close> of \<open>Object.prototype\<close>, which
  gives the prototype of the object it is read from.
\<close>

record jsenv =
  Object_prototype :: "string list"
  Array_prototype :: "string list"

text \<open>The names of ECMAScript 2023, for the concrete examples.\<close>

definition es2023 :: jsenv where
  "es2023 =
     \<lparr>Object_prototype =
        [''constructor'', ''__defineGetter__'', ''__defineSetter__'', ''hasOwnProperty'',
         ''__lookupGetter__'', ''__lookupSetter__'', ''isPrototypeOf'',
         ''propertyIsEnumerable'', ''toString'', ''valueOf'', ''__proto__'', ''toLocaleString''],
      Array_prototype =
        [''constructor'', ''at'', ''concat'', ''copyWithin'', ''fill'', ''find'', ''findIndex'',
         ''findLast'', ''findLastIndex'', ''lastIndexOf'', ''pop'', ''push'', ''reverse'',
         ''shift'', ''unshift'', ''slice'', ''sort'', ''splice'', ''includes'', ''indexOf'',
         ''join'', ''keys'', ''entries'', ''values'', ''forEach'', ''filter'', ''flat'',
         ''flatMap'', ''map'', ''every'', ''some'', ''reduce'', ''reduceRight'',
         ''toLocaleString'', ''toString'', ''toReversed'', ''toSorted'', ''toSpliced'',
         ''with'']\<rparr>"

text \<open>
  The prototype of an object, the own property \<open>k\<close> of an object \<open>holder\<close> as read from
  \<open>receiver\<close>, and the search along the prototype chain. An array has its indices and
  \<open>length\<close> as own properties. \<open>key in v\<close> holds when the search finds the property and
  \<open>v[key]\<close> is the value found, \<open>undefined\<close> when there is none. The operations are only
  reached with an object or an array.
\<close>

fun prototype_of :: "jsval \<Rightarrow> prototype option" where
  "prototype_of (JObj kvs) = Some ObjectPrototype"
| "prototype_of (JArr xs) = Some ArrayPrototype"
| "prototype_of (JPrototype ArrayPrototype) = Some ObjectPrototype"
| "prototype_of v = None"

fun own_property :: "jsenv \<Rightarrow> jsval \<Rightarrow> jsval \<Rightarrow> string \<Rightarrow> jsval option" where
  "own_property E receiver (JObj kvs) k = map_of kvs k"
| "own_property E receiver (JArr xs) k =
     (if k = ''length'' then Some (JNum (real (length xs)))
      else (case parseInt k of
              Some i \<Rightarrow> (if show_nat i = k \<and> i < length xs then Some (xs ! i) else None)
            | None \<Rightarrow> None))"
| "own_property E receiver (JPrototype ArrayPrototype) k =
     (if k = ''length'' then Some (JNum 0)
      else if k \<in> set (Array_prototype E) then Some (JFunction ArrayPrototype k)
      else None)"
| "own_property E receiver (JPrototype ObjectPrototype) k =
     (if k \<in> set (Object_prototype E) then
        Some (if k = ''__proto__''
              then (case prototype_of receiver of Some h \<Rightarrow> JPrototype h | None \<Rightarrow> JNull)
              else JFunction ObjectPrototype k)
      else None)"
| "own_property E receiver v k = None"

fun chain_length :: "jsval \<Rightarrow> nat" where
  "chain_length (JPrototype ObjectPrototype) = 0"
| "chain_length (JPrototype ArrayPrototype) = 1"
| "chain_length v = 2"

function lookup :: "jsenv \<Rightarrow> jsval \<Rightarrow> jsval \<Rightarrow> string \<Rightarrow> jsval option" where
  "lookup E receiver holder k =
     (case own_property E receiver holder k of
        Some x \<Rightarrow> Some x
      | None \<Rightarrow>
          (case prototype_of holder of
             Some h \<Rightarrow> lookup E receiver (JPrototype h) k
           | None \<Rightarrow> None))"
  by pat_completeness auto
termination
proof (relation "measure (\<lambda>(E, receiver, holder, k). chain_length holder)")
  show "wf (measure (\<lambda>(E, receiver, holder, k). chain_length holder))" by simp
next
  fix E receiver holder k h
  assume "prototype_of holder = Some h"
  then have "chain_length (JPrototype h) < chain_length holder"
    by (cases holder rule: prototype_of.cases) auto
  then show "((E, receiver, JPrototype h, k), (E, receiver, holder, k))
      \<in> measure (\<lambda>(E, receiver, holder, k). chain_length holder)"
    by simp
qed

declare lookup.simps [simp del]

definition has_prop :: "jsenv \<Rightarrow> string \<Rightarrow> jsval \<Rightarrow> bool" where
  "has_prop E k v \<longleftrightarrow> lookup E v v k \<noteq> None"

definition get_prop :: "jsenv \<Rightarrow> jsval \<Rightarrow> string \<Rightarrow> jsval" where
  "get_prop E v k = (case lookup E v v k of Some x \<Rightarrow> x | None \<Rightarrow> JUndefined)"

text \<open>
  \<open>Array.from(new Set(xs))\<close>: a \<open>Set\<close> keeps its elements in insertion order and
  ignores an element it already holds.
\<close>

primrec Set_add_all :: "'a list \<Rightarrow> 'a list \<Rightarrow> 'a list" where
  "Set_add_all acc [] = acc"
| "Set_add_all acc (x # xs) = Set_add_all (if x \<in> set acc then acc else acc @ [x]) xs"

definition Array_from_Set :: "'a list \<Rightarrow> 'a list" where
  "Array_from_Set xs = Set_add_all [] xs"

text \<open>
  A measure that goes down from a value to each of its properties, inherited ones
  included.
\<close>

fun rank :: "jsval \<Rightarrow> nat" where
  "rank (JArr xs) = size (JArr xs) + 3"
| "rank (JObj kvs) = size (JObj kvs) + 3"
| "rank (JPrototype ArrayPrototype) = 2"
| "rank (JPrototype ObjectPrototype) = 1"
| "rank v = 0"


section \<open>The flat differ: \<open>compareJson\<close>\<close>

datatype difftype = Added | Removed | Modified | Unchanged

record DiffResult =
  type :: difftype
  path :: string
  oldValue :: "jsval option"
  newValue :: "jsval option"

text \<open>\<open>path || 'root'\<close>: the empty string is falsy.\<close>

definition or_root :: "string \<Rightarrow> string" where
  "or_root p = (if p = [] then ''root'' else p)"

text \<open>The paths of an array element and of an object property.\<close>

definition itemPath :: "string \<Rightarrow> nat \<Rightarrow> string" where
  "itemPath p i = (if p \<noteq> [] then p @ ''['' @ show_nat i @ '']'' else ''['' @ show_nat i @ '']'')"

definition keyPath :: "string \<Rightarrow> string \<Rightarrow> string" where
  "keyPath p key = (if p \<noteq> [] then p @ ''.'' @ key else key)"

lemma rank_le_size: "rank v \<le> size v + 3"
  by (cases v rule: rank.cases) simp_all

lemma rank_js_index: "i < arr_length v \<Longrightarrow> rank (js_index v i) < rank v"
proof (cases v)
  case (JArr xs)
  assume "i < arr_length v"
  with JArr have "xs ! i \<in> set xs" by simp
  then have "size (xs ! i) \<le> size_list size xs"
    by (rule size_list_estimation') simp
  with JArr \<open>i < arr_length v\<close> rank_le_size[of "xs ! i"] show ?thesis by simp
qed simp_all

lemma size_map_of:
  "map_of kvs key = Some v \<Longrightarrow> size v \<le> size_list (size_prod (\<lambda>_. 0) size) kvs"
  by (induction kvs) (auto split: if_splits)

lemma rank_own_property:
  "own_property E v v k = Some x \<Longrightarrow> rank x < rank v"
proof (cases v)
  case (JObj kvs)
  assume "own_property E v v k = Some x"
  with JObj size_map_of[of kvs k x] rank_le_size[of x] show ?thesis by simp
next
  case (JArr xs)
  assume o: "own_property E v v k = Some x"
  show ?thesis
  proof (cases "k = ''length''")
    case True
    with JArr o show ?thesis by auto
  next
    case False
    with JArr o obtain i where "i < length xs" "x = xs ! i"
      by (auto split: option.splits if_splits)
    then have "size x \<le> size_list size xs"
      by (intro size_list_estimation'[of x]) auto
    with JArr rank_le_size[of x] show ?thesis by simp
  qed
next
  case (JPrototype h)
  assume "own_property E v v k = Some x"
  with JPrototype show ?thesis by (cases h) (auto split: if_splits)
qed simp_all

lemma rank_prototype_of: "prototype_of v = Some h \<Longrightarrow> rank (JPrototype h) < rank v"
  by (cases v rule: prototype_of.cases) auto

lemma rank_inherited:
  "lookup E v (JPrototype h) k = Some x \<Longrightarrow> prototype_of v = Some h' \<Longrightarrow>
   rank x \<le> rank (JPrototype h')"
  by (cases h; cases h')
    (auto simp: lookup.simps[of E v "JPrototype ObjectPrototype"]
       lookup.simps[of E v "JPrototype ArrayPrototype"] split: option.splits if_splits)

lemma rank_lookup: "lookup E v v k = Some x \<Longrightarrow> rank x < rank v"
proof (cases "own_property E v v k")
  case (Some y)
  assume "lookup E v v k = Some x"
  with Some have "y = x" by (simp add: lookup.simps[of E v v])
  with Some show ?thesis by (simp add: rank_own_property)
next
  case None
  assume l: "lookup E v v k = Some x"
  with None obtain h where h: "prototype_of v = Some h" "lookup E v (JPrototype h) k = Some x"
    by (auto simp: lookup.simps[of E v v] split: option.splits)
  from rank_inherited[OF h(2) h(1)] rank_prototype_of[OF h(1)] show ?thesis by simp
qed

lemma rank_get_prop: "has_prop E k v \<Longrightarrow> rank (get_prop E v k) < rank v"
  by (auto simp: has_prop_def get_prop_def rank_lookup)

text \<open>
  The function follows the source branch by branch. The index loop and the key loop each
  push the records of one index or key; the result is their concatenation in loop
  order. \<open>original !== modified\<close> is only reached with two values that are not of type
  \<open>'object'\<close> and of one type, where it is inequality of values. The parameter \<open>path\<close> is
  written \<open>p\<close>, since \<open>path\<close> is the field of the record; \<open>E\<close> is the run-time
  environment.
\<close>

function compareJson :: "jsenv \<Rightarrow> jsval \<Rightarrow> jsval \<Rightarrow> string \<Rightarrow> DiffResult list" where
  "compareJson E original modified p =
    (if original = JNull \<or> original = JUndefined then
       (if modified \<noteq> JNull \<and> modified \<noteq> JUndefined
        then [\<lparr>type = Added, path = or_root p, oldValue = None, newValue = Some modified\<rparr>]
        else [])
     else if modified = JNull \<or> modified = JUndefined then
       [\<lparr>type = Removed, path = or_root p, oldValue = Some original, newValue = None\<rparr>]
     else if typeof original \<noteq> typeof modified then
       [\<lparr>type = Modified, path = or_root p, oldValue = Some original, newValue = Some modified\<rparr>]
     else if typeof original \<noteq> TyObject then
       (if original \<noteq> modified
        then [\<lparr>type = Modified, path = or_root p, oldValue = Some original, newValue = Some modified\<rparr>]
        else [])
     else if isArray original \<and> isArray modified then
       concat (map (\<lambda>i.
           if arr_length original \<le> i then
             [\<lparr>type = Added, path = itemPath p i,
               oldValue = None, newValue = Some (js_index modified i)\<rparr>]
           else if arr_length modified \<le> i then
             [\<lparr>type = Removed, path = itemPath p i,
               oldValue = Some (js_index original i), newValue = None\<rparr>]
           else compareJson E (js_index original i) (js_index modified i) (itemPath p i))
         [0..<max (arr_length original) (arr_length modified)])
     else
       concat (map (\<lambda>key.
           if \<not> has_prop E key original then
             [\<lparr>type = Added, path = keyPath p key,
               oldValue = None, newValue = Some (get_prop E modified key)\<rparr>]
           else if \<not> has_prop E key modified then
             [\<lparr>type = Removed, path = keyPath p key,
               oldValue = Some (get_prop E original key), newValue = None\<rparr>]
           else compareJson E (get_prop E original key) (get_prop E modified key) (keyPath p key))
         (Array_from_Set (Object_keys original @ Object_keys modified))))"
  by pat_completeness auto
termination
proof (relation "measure (\<lambda>(E, original, modified, p). rank original)")
  show "wf (measure (\<lambda>(E, original, modified, p). rank original))" by simp
qed (simp_all add: rank_js_index rank_get_prop)

declare compareJson.simps [simp del]

text \<open>
  The bodies of the two loops, as functions of the index and of the key: what one round
  of the loop pushes.
\<close>

definition compareJson_item ::
  "jsenv \<Rightarrow> jsval \<Rightarrow> jsval \<Rightarrow> string \<Rightarrow> nat \<Rightarrow> DiffResult list" where
  "compareJson_item E original modified p i =
     (if arr_length original \<le> i then
        [\<lparr>type = Added, path = itemPath p i, oldValue = None, newValue = Some (js_index modified i)\<rparr>]
      else if arr_length modified \<le> i then
        [\<lparr>type = Removed, path = itemPath p i, oldValue = Some (js_index original i), newValue = None\<rparr>]
      else compareJson E (js_index original i) (js_index modified i) (itemPath p i))"

definition compareJson_key ::
  "jsenv \<Rightarrow> jsval \<Rightarrow> jsval \<Rightarrow> string \<Rightarrow> string \<Rightarrow> DiffResult list" where
  "compareJson_key E original modified p k =
     (if \<not> has_prop E k original then
        [\<lparr>type = Added, path = keyPath p k, oldValue = None, newValue = Some (get_prop E modified k)\<rparr>]
      else if \<not> has_prop E k modified then
        [\<lparr>type = Removed, path = keyPath p k, oldValue = Some (get_prop E original k), newValue = None\<rparr>]
      else compareJson E (get_prop E original k) (get_prop E modified k) (keyPath p k))"

text \<open>A value that both functions walk into: of type \<open>'object'\<close> and not \<open>null\<close>.\<close>

definition is_container :: "jsval \<Rightarrow> bool" where
  "is_container v \<longleftrightarrow> typeof v = TyObject \<and> v \<noteq> JNull"

text \<open>
  The record of the opposite direction: \<open>Added\<close> and \<open>Removed\<close> change places, and so do
  the old and the new value; the path stays.
\<close>

definition mirror :: "DiffResult \<Rightarrow> DiffResult" where
  "mirror r = \<lparr>type = (case type r of Added \<Rightarrow> Removed | Removed \<Rightarrow> Added | t \<Rightarrow> t),
               path = path r, oldValue = newValue r, newValue = oldValue r\<rparr>"

text \<open>
  A key that cannot be taken for path syntax: without a dot and without an opening
  bracket; and a value all of whose object keys are such keys. What follows a key or an
  index in a path is empty or starts with a dot or a bracket.
\<close>

definition key_ok :: "string \<Rightarrow> bool" where
  "key_ok k \<longleftrightarrow> CHR ''.'' \<notin> set k \<and> CHR ''['' \<notin> set k"

fun keys_ok :: "jsval \<Rightarrow> bool" where
  "keys_ok (JArr xs) = (\<forall>x\<in>set xs. keys_ok x)"
| "keys_ok (JObj kvs) = (\<forall>(k, v)\<in>set kvs. key_ok k \<and> keys_ok v)"
| "keys_ok v = True"

definition sfx_ok :: "string \<Rightarrow> bool" where
  "sfx_ok s \<longleftrightarrow> s = [] \<or> hd s = CHR ''.'' \<or> hd s = CHR ''[''"

section \<open>The structural renderer: \<open>generateDiff\<close>\<close>

text \<open>
  An optional field of a line that the source leaves out is \<open>None\<close>
  (\<open>isStructural\<close>: \<open>False\<close>). The built-in \<open>JSON.stringify\<close> is the parameter
  \<open>stringify\<close>; it gives \<open>undefined\<close>, here \<open>None\<close>, for \<open>undefined\<close> and for a function,
  and a template literal prints \<open>undefined\<close> as the word. The default \<open>sort()\<close> of an array of strings orders them by code units,
  which is the lexicographic order of \<open>string\<close>. The parameter \<open>indent\<close> and the loop
  variable \<open>key\<close> are written \<open>ind\<close> and \<open>k\<close>, since \<open>indent\<close> and \<open>key\<close> are fields of
  the record; \<open>E\<close> is the run-time environment. \<open>origVal !== modVal\<close> is only reached
  with two values of one type that are not both objects, where it is inequality of
  values.
\<close>

record DiffLine =
  type_line :: difftype
  key :: "string option"
  indent :: nat
  content :: string
  oldValue_line :: "string option"
  newValue_line :: "string option"
  isStructural :: bool

definition repeat :: "string \<Rightarrow> nat \<Rightarrow> string" where
  "repeat s n = concat (replicate n s)"

definition template :: "string option \<Rightarrow> string" where
  "template s = (case s of Some x \<Rightarrow> x | None \<Rightarrow> ''undefined'')"

function generateDiff ::
  "jsenv \<Rightarrow> (jsval \<Rightarrow> string option) \<Rightarrow> jsval \<Rightarrow> jsval \<Rightarrow> nat \<Rightarrow> DiffLine list" where
  "generateDiff E stringify original modified ind =
    (let indentStr = repeat ''  '' ind in
     if original = JNull \<and> modified = JNull then []
     else if original = JUndefined \<and> modified = JUndefined then []
     else if typeof original \<noteq> typeof modified \<or> typeof original \<noteq> TyObject
             \<or> original = JNull \<or> modified = JNull then []
     else
       let isArr = (isArray original \<and> isArray modified);
           originalKeys = (if isArr then map show_nat [0..<arr_length original] else Object_keys original);
           modifiedKeys = (if isArr then map show_nat [0..<arr_length modified] else Object_keys modified);
           allKeys = Array_from_Set (originalKeys @ modifiedKeys);
           allKeys = (if \<not> isArr then sort allKeys else allKeys)
       in concat (map (\<lambda>k.
            let origVal = (if isArr then (case parseInt k of Some i \<Rightarrow> js_index original i | None \<Rightarrow> JUndefined)
                           else get_prop E original k);
                modVal = (if isArr then (case parseInt k of Some i \<Rightarrow> js_index modified i | None \<Rightarrow> JUndefined)
                          else get_prop E modified k);
                keyDisplay = (if isArr then [] else [CHR 0x22] @ k @ [CHR 0x22] @ '': '');
                inOriginal = (if isArr then (case parseInt k of Some i \<Rightarrow> i < arr_length original | None \<Rightarrow> False)
                              else has_prop E k original);
                inModified = (if isArr then (case parseInt k of Some i \<Rightarrow> i < arr_length modified | None \<Rightarrow> False)
                              else has_prop E k modified)
            in
              if \<not> inOriginal then
                [\<lparr>type_line = Added, key = Some k, indent = ind,
                  content = indentStr @ keyDisplay @ template (stringify modVal),
                  oldValue_line = None, newValue_line = stringify modVal, isStructural = False\<rparr>]
              else if \<not> inModified then
                [\<lparr>type_line = Removed, key = Some k, indent = ind,
                  content = indentStr @ keyDisplay @ template (stringify origVal),
                  oldValue_line = stringify origVal, newValue_line = None, isStructural = False\<rparr>]
              else if typeof origVal \<noteq> typeof modVal then
                [\<lparr>type_line = Modified, key = Some k, indent = ind,
                  content = indentStr @ keyDisplay,
                  oldValue_line = stringify origVal, newValue_line = stringify modVal,
                  isStructural = False\<rparr>]
              else if typeof origVal = TyObject \<and> origVal \<noteq> JNull \<and> modVal \<noteq> JNull then
                [\<lparr>type_line = Unchanged, key = None, indent = ind,
                  content = indentStr @ keyDisplay @ (if isArray origVal then ''['' else ''{''),
                  oldValue_line = None, newValue_line = None, isStructural = True\<rparr>]
                @ generateDiff E stringify origVal modVal (ind + 1)
                @ [\<lparr>type_line = Unchanged, key = None, indent = ind,
                    content = indentStr @ (if isArray origVal then '']'' else ''}''),
                    oldValue_line = None, newValue_line = None, isStructural = True\<rparr>]
              else if origVal \<noteq> modVal then
                [\<lparr>type_line = Modified, key = Some k, indent = ind,
                  content = indentStr @ keyDisplay,
                  oldValue_line = stringify origVal, newValue_line = stringify modVal,
                  isStructural = False\<rparr>]
              else
                [\<lparr>type_line = Unchanged, key = Some k, indent = ind,
                  content = indentStr @ keyDisplay @ template (stringify origVal),
                  oldValue_line = None, newValue_line = None, isStructural = False\<rparr>])
          allKeys))"
  by pat_completeness auto
termination
proof (relation "measure (\<lambda>(E, stringify, original, modified, ind). rank original)")
  show "wf (measure (\<lambda>(E, stringify, original, modified, ind). rank original))" by simp
qed (auto simp: rank_js_index rank_get_prop split: option.splits if_splits)

declare generateDiff.simps [simp del]

text \<open>
  The keys the loop runs over, and the body of the loop as a function of the key: the
  lines one round pushes.
\<close>

definition generateDiff_keys :: "jsval \<Rightarrow> jsval \<Rightarrow> string list" where
  "generateDiff_keys original modified =
     (let isArr = (isArray original \<and> isArray modified);
          originalKeys = (if isArr then map show_nat [0..<arr_length original] else Object_keys original);
          modifiedKeys = (if isArr then map show_nat [0..<arr_length modified] else Object_keys modified);
          allKeys = Array_from_Set (originalKeys @ modifiedKeys)
      in if \<not> isArr then sort allKeys else allKeys)"

definition generateDiff_key ::
  "jsenv \<Rightarrow> (jsval \<Rightarrow> string option) \<Rightarrow> jsval \<Rightarrow> jsval \<Rightarrow> nat \<Rightarrow> string \<Rightarrow> DiffLine list" where
  "generateDiff_key E stringify original modified ind k =
     (let indentStr = repeat ''  '' ind;
          isArr = (isArray original \<and> isArray modified);
          origVal = (if isArr then (case parseInt k of Some i \<Rightarrow> js_index original i | None \<Rightarrow> JUndefined)
                     else get_prop E original k);
          modVal = (if isArr then (case parseInt k of Some i \<Rightarrow> js_index modified i | None \<Rightarrow> JUndefined)
                    else get_prop E modified k);
          keyDisplay = (if isArr then [] else [CHR 0x22] @ k @ [CHR 0x22] @ '': '');
          inOriginal = (if isArr then (case parseInt k of Some i \<Rightarrow> i < arr_length original | None \<Rightarrow> False)
                        else has_prop E k original);
          inModified = (if isArr then (case parseInt k of Some i \<Rightarrow> i < arr_length modified | None \<Rightarrow> False)
                        else has_prop E k modified)
      in
        if \<not> inOriginal then
          [\<lparr>type_line = Added, key = Some k, indent = ind,
            content = indentStr @ keyDisplay @ template (stringify modVal),
            oldValue_line = None, newValue_line = stringify modVal, isStructural = False\<rparr>]
        else if \<not> inModified then
          [\<lparr>type_line = Removed, key = Some k, indent = ind,
            content = indentStr @ keyDisplay @ template (stringify origVal),
            oldValue_line = stringify origVal, newValue_line = None, isStructural = False\<rparr>]
        else if typeof origVal \<noteq> typeof modVal then
          [\<lparr>type_line = Modified, key = Some k, indent = ind,
            content = indentStr @ keyDisplay,
            oldValue_line = stringify origVal, newValue_line = stringify modVal,
            isStructural = False\<rparr>]
        else if typeof origVal = TyObject \<and> origVal \<noteq> JNull \<and> modVal \<noteq> JNull then
          [\<lparr>type_line = Unchanged, key = None, indent = ind,
            content = indentStr @ keyDisplay @ (if isArray origVal then ''['' else ''{''),
            oldValue_line = None, newValue_line = None, isStructural = True\<rparr>]
          @ generateDiff E stringify origVal modVal (ind + 1)
          @ [\<lparr>type_line = Unchanged, key = None, indent = ind,
              content = indentStr @ (if isArray origVal then '']'' else ''}''),
              oldValue_line = None, newValue_line = None, isStructural = True\<rparr>]
        else if origVal \<noteq> modVal then
          [\<lparr>type_line = Modified, key = Some k, indent = ind,
            content = indentStr @ keyDisplay,
            oldValue_line = stringify origVal, newValue_line = stringify modVal,
            isStructural = False\<rparr>]
        else
          [\<lparr>type_line = Unchanged, key = Some k, indent = ind,
            content = indentStr @ keyDisplay @ template (stringify origVal),
            oldValue_line = None, newValue_line = None, isStructural = False\<rparr>])"


text \<open>
  The value of a key on one side and whether the side has the key, as the loop body
  computes them, and the keys whose two values the renderer walks into: present on both
  sides with a container on both sides.
\<close>

definition key_value :: "jsenv \<Rightarrow> jsval \<Rightarrow> bool \<Rightarrow> string \<Rightarrow> jsval" where
  "key_value E v isArr k =
     (if isArr then (case parseInt k of Some i \<Rightarrow> js_index v i | None \<Rightarrow> JUndefined)
      else get_prop E v k)"

definition key_present :: "jsenv \<Rightarrow> jsval \<Rightarrow> bool \<Rightarrow> string \<Rightarrow> bool" where
  "key_present E v isArr k =
     (if isArr then (case parseInt k of Some i \<Rightarrow> i < arr_length v | None \<Rightarrow> False)
      else has_prop E k v)"


text \<open>The keys of the lines at one indentation level, in the order of the lines.\<close>

definition level_keys :: "nat \<Rightarrow> DiffLine list \<Rightarrow> string list" where
  "level_keys ind ls =
     concat (map (\<lambda>l. case key l of Some k \<Rightarrow> (if indent l = ind then [k] else []) | None \<Rightarrow> []) ls)"

section \<open>The history store: \<open>useHistory\<close>\<close>

text \<open>
  The state of one store is the list \<open>history.value\<close>; each operation returns the new
  list. \<open>Date.now()\<close> is the parameter \<open>now\<close>, and the parameter \<open>content\<close> is written
  \<open>c\<close>. \<open>saveHistory\<close> copies the list to local storage and does not change it.
\<close>

record HistoryItem =
  content_item :: string
  timestamp :: int
  preview :: string

definition MAX_HISTORY_ITEMS :: nat where
  "MAX_HISTORY_ITEMS = 50"

text \<open>
  \<open>String.prototype.trim\<close> strips white space and line terminators at both ends: among
  the first 256 code units these are tab, line feed, vertical tab, form feed, carriage
  return, space and no-break space.
\<close>

definition is_space :: "char \<Rightarrow> bool" where
  "is_space c = ((of_char c :: nat) \<in> {9, 10, 11, 12, 13, 32, 160})"

definition trim :: "string \<Rightarrow> string" where
  "trim s = rev (dropWhile is_space (rev (dropWhile is_space s)))"

definition createPreview :: "string \<Rightarrow> string" where
  "createPreview c =
     (let trimmed = trim c in
      if length trimmed \<le> 50 then trimmed else take 50 trimmed @ ''...'')"

text \<open>\<open>findIndex\<close> gives \<open>-1\<close> when no element matches; \<open>splice(start, 1)\<close> removes one
  element, counting a negative \<open>start\<close> from the end.\<close>

primrec findIndex :: "('a \<Rightarrow> bool) \<Rightarrow> 'a list \<Rightarrow> int" where
  "findIndex P [] = - 1"
| "findIndex P (x # xs) =
     (if P x then 0 else (let r = findIndex P xs in if r = - 1 then - 1 else r + 1))"

definition splice1 :: "int \<Rightarrow> 'a list \<Rightarrow> 'a list" where
  "splice1 start xs =
     (let len = int (length xs);
          actualStart = (if start < 0 then max (len + start) 0 else min start len)
      in take (nat actualStart) xs @ drop (nat actualStart + 1) xs)"

definition addToHistory :: "int \<Rightarrow> string \<Rightarrow> HistoryItem list \<Rightarrow> HistoryItem list" where
  "addToHistory now c history =
     (if trim c = [] then history
      else
        let existingIndex = findIndex (\<lambda>item. content_item item = c) history in
        if existingIndex \<noteq> - 1 then
          let existing = history ! nat existingIndex;
              history = splice1 existingIndex history;
              existing = existing\<lparr>timestamp := now\<rparr>
          in existing # history
        else
          let history = \<lparr>content_item = c, timestamp = now, preview = createPreview c\<rparr> # history
          in if length history > MAX_HISTORY_ITEMS then take MAX_HISTORY_ITEMS history else history)"

definition removeFromHistory :: "int \<Rightarrow> HistoryItem list \<Rightarrow> HistoryItem list" where
  "removeFromHistory index history = splice1 index history"

definition clearHistory :: "HistoryItem list \<Rightarrow> HistoryItem list" where
  "clearHistory history = []"

text \<open>
  A call of one of the three operations, with the time of the call for an add, and the
  list a store holds after a sequence of calls, starting from the empty list.
\<close>

datatype history_op = OpAdd int string | OpRemove int | OpClear

fun apply_op :: "history_op \<Rightarrow> HistoryItem list \<Rightarrow> HistoryItem list" where
  "apply_op (OpAdd now c) history = addToHistory now c history"
| "apply_op (OpRemove index) history = removeFromHistory index history"
| "apply_op OpClear history = clearHistory history"

definition run_ops :: "history_op list \<Rightarrow> HistoryItem list" where
  "run_ops ops = fold apply_op ops []"

text \<open>What every such list satisfies: no content twice, no blank content, at most
  \<open>MAX_HISTORY_ITEMS\<close> entries.\<close>

definition history_ok :: "HistoryItem list \<Rightarrow> bool" where
  "history_ok h \<longleftrightarrow>
     distinct (map content_item h) \<and> (\<forall>i\<in>set h. trim (content_item i) \<noteq> [])
     \<and> length h \<le> MAX_HISTORY_ITEMS"

section \<open>Basic facts\<close>

subsection \<open>Index strings\<close>

lemma of_char_digit_char: "d < 10 \<Longrightarrow> (of_char (digit_char d) :: nat) = 48 + d"
  by (simp add: digit_char_def)

lemma is_digit_digit_char: "d < 10 \<Longrightarrow> is_digit (digit_char d)"
  by (simp add: is_digit_def of_char_digit_char)

lemma show_nat_digits: "\<forall>c\<in>set (show_nat n). is_digit c"
proof (induction n rule: show_nat.induct)
  case (1 n)
  show ?case
  proof (cases "n < 10")
    case True
    then show ?thesis by (subst show_nat.simps) (simp add: is_digit_digit_char)
  next
    case False
    with 1 show ?thesis by (subst show_nat.simps) (simp add: is_digit_digit_char)
  qed
qed

lemma show_nat_not_Nil: "show_nat n \<noteq> []"
  by (subst show_nat.simps) simp

lemma fold_show_nat: "fold (\<lambda>c n. 10 * n + (of_char c - 48)) (show_nat n) 0 = n"
proof (induction n rule: show_nat.induct)
  case (1 n)
  show ?case
  proof (cases "n < 10")
    case True
    then show ?thesis by (subst show_nat.simps) (simp add: of_char_digit_char)
  next
    case False
    with 1 show ?thesis by (subst show_nat.simps) (simp add: of_char_digit_char)
  qed
qed

lemma parseInt_show_nat: "parseInt (show_nat n) = Some n"
proof -
  have "takeWhile is_digit (show_nat n) = show_nat n"
    using show_nat_digits[of n] by (simp add: takeWhile_eq_all_conv)
  then have "parseInt (show_nat n)
      = Some (fold (\<lambda>c n. 10 * n + (of_char c - 48)) (show_nat n) 0)"
    unfolding parseInt_def Let_def by (simp only: show_nat_not_Nil if_False)
  then show ?thesis by (simp only: fold_show_nat)
qed

lemma show_nat_inj: "show_nat m = show_nat n \<Longrightarrow> m = n"
proof -
  assume "show_nat m = show_nat n"
  then have "parseInt (show_nat m) = parseInt (show_nat n)" by (rule arg_cong)
  then show "m = n" by (simp only: parseInt_show_nat option.inject)
qed

lemma array_index_SomeD: "array_index k = Some i \<Longrightarrow> show_nat i = k"
  by (auto simp: array_index_def split: option.splits if_splits)

lemma array_index_show_nat:
  "array_index (show_nat i) = (if i < 2 ^ 32 - 1 then Some i else None)"
  by (simp add: array_index_def parseInt_show_nat)

text \<open>
  The bound of an array index with the numbers in binary, for the evaluation of the
  concrete examples.
\<close>

lemma array_index_code [code]:
  "array_index k =
     (case parseInt k of
        Some i \<Rightarrow> (if show_nat i = k \<and> int i < 4294967295 then Some i else None)
      | None \<Rightarrow> None)"
  by (simp add: array_index_def split: option.splits)

subsection \<open>Insertion order of a \<open>Set\<close>\<close>

lemma set_Set_add_all: "set (Set_add_all acc xs) = set acc \<union> set xs"
  by (induction xs arbitrary: acc) auto

lemma distinct_Set_add_all: "distinct acc \<Longrightarrow> distinct (Set_add_all acc xs)"
  by (induction xs arbitrary: acc) auto

lemma set_Array_from_Set: "set (Array_from_Set xs) = set xs"
  by (simp add: Array_from_Set_def set_Set_add_all)

lemma distinct_Array_from_Set: "distinct (Array_from_Set xs)"
  by (simp add: Array_from_Set_def distinct_Set_add_all)

lemma Set_add_all_append: "Set_add_all acc (xs @ ys) = Set_add_all (Set_add_all acc xs) ys"
  by (induction xs arbitrary: acc) simp_all

lemma Set_add_all_distinct:
  "distinct ys \<Longrightarrow> Set_add_all acc ys = acc @ filter (\<lambda>y. y \<notin> set acc) ys"
proof (induction ys arbitrary: acc)
  case Nil
  show ?case by simp
next
  case (Cons y ys)
  show ?case
  proof (cases "y \<in> set acc")
    case True
    with Cons show ?thesis by simp
  next
    case False
    from Cons.prems have "filter (\<lambda>z. z \<notin> set (acc @ [y])) ys = filter (\<lambda>z. z \<notin> set acc) ys"
      by (intro filter_cong) auto
    with Cons.IH[of "acc @ [y]"] Cons.prems False show ?thesis by simp
  qed
qed

lemma Array_from_Set_append:
  assumes "distinct xs" "distinct ys"
  shows "Array_from_Set (xs @ ys) = xs @ filter (\<lambda>y. y \<notin> set xs) ys"
  using assms by (simp add: Array_from_Set_def Set_add_all_append Set_add_all_distinct)

subsection \<open>Properties and keys\<close>

lemma is_container_simps [simp]:
  "is_container (JArr xs)" "is_container (JObj kvs)" "is_container (JPrototype h)"
  "\<not> is_container JNull" "\<not> is_container JUndefined" "\<not> is_container (JBool b)"
  "\<not> is_container (JNum n)" "\<not> is_container (JStr s)" "\<not> is_container (JFunction h f)"
  by (simp_all add: is_container_def)

lemma set_map_filter_conv:
  "set (List.map_filter f xs) = {y. \<exists>x\<in>set xs. f x = Some y}"
  by (induction xs) (auto simp: map_filter_simps split: option.splits)

lemma set_Object_keys_JObj: "set (Object_keys (JObj kvs)) = fst ` set kvs"
proof (intro set_eqI iffI)
  fix k
  assume "k \<in> set (Object_keys (JObj kvs))"
  then show "k \<in> fst ` set kvs"
    by (auto simp: set_map_filter_conv dest!: array_index_SomeD)
next
  fix k
  assume k: "k \<in> fst ` set kvs"
  show "k \<in> set (Object_keys (JObj kvs))"
  proof (cases "array_index k")
    case None
    with k show ?thesis by auto
  next
    case (Some i)
    with k have "i \<in> set (List.map_filter array_index (map fst kvs))"
      by (auto simp: set_map_filter_conv)
    moreover from Some have "show_nat i = k" by (rule array_index_SomeD)
    ultimately show ?thesis by auto
  qed
qed

lemma distinct_map_filter_array_index:
  "distinct ks \<Longrightarrow> distinct (List.map_filter array_index ks)"
proof (induction ks)
  case Nil
  show ?case by (simp add: map_filter_simps)
next
  case (Cons k ks)
  show ?case
  proof (cases "array_index k")
    case None
    with Cons show ?thesis by (simp add: map_filter_simps)
  next
    case (Some i)
    have "i \<notin> set (List.map_filter array_index ks)"
    proof
      assume "i \<in> set (List.map_filter array_index ks)"
      then obtain k' where "k' \<in> set ks" "array_index k' = Some i"
        by (auto simp: set_map_filter_conv)
      with Some have "k' = k" by (auto dest!: array_index_SomeD)
      with \<open>k' \<in> set ks\<close> Cons.prems show False by simp
    qed
    with Some Cons show ?thesis by (simp add: map_filter_simps)
  qed
qed

lemma distinct_Object_keys_JObj:
  assumes "distinct (map fst kvs)"
  shows "distinct (Object_keys (JObj kvs))"
proof -
  let ?is = "sort (List.map_filter array_index (map fst kvs))"
  have "distinct ?is"
    using assms by (simp add: distinct_map_filter_array_index)
  then have "distinct (map show_nat ?is)"
    by (auto simp: distinct_map inj_on_def dest: show_nat_inj)
  moreover have "array_index (show_nat i) \<noteq> None" if "i \<in> set ?is" for i
  proof -
    from that obtain k where "array_index k = Some i" by (auto simp: set_map_filter_conv)
    then show ?thesis using array_index_SomeD[of k i] by auto
  qed
  then have "set (map show_nat ?is) \<inter> set (filter (\<lambda>k. array_index k = None) (map fst kvs)) = {}"
    by fastforce
  moreover have "distinct (filter (\<lambda>k. array_index k = None) (map fst kvs))"
    using assms by (rule distinct_filter)
  ultimately show ?thesis by (simp only: Object_keys.simps distinct_append)
qed

lemma distinct_Object_keys_JArr: "distinct (Object_keys (JArr xs))"
  by (auto simp: distinct_map inj_on_def dest: show_nat_inj)

lemma lookup_own: "own_property E r h k = Some x \<Longrightarrow> lookup E r h k = Some x"
  by (simp add: lookup.simps[of E r h])

lemma has_prop_Object_keys: "k \<in> set (Object_keys v) \<Longrightarrow> has_prop E k v"
proof (cases v)
  case (JObj kvs)
  assume "k \<in> set (Object_keys v)"
  with JObj have "k \<in> fst ` set kvs" by (simp only: set_Object_keys_JObj)
  then obtain x where "map_of kvs k = Some x"
    by (cases "map_of kvs k") (auto simp: map_of_eq_None_iff)
  with JObj show ?thesis by (simp add: has_prop_def lookup_own)
next
  case (JArr xs)
  assume "k \<in> set (Object_keys v)"
  with JArr obtain i where "k = show_nat i" "i < length xs" by auto
  then have "own_property E v v k \<noteq> None"
    using JArr by (simp add: parseInt_show_nat)
  then show ?thesis by (auto simp: has_prop_def lookup_own)
qed simp_all

section \<open>Properties of the flat differ\<close>

subsection \<open>Own properties of a parsed object\<close>

lemma has_prop_own: "map_of kvs k = Some x \<Longrightarrow> has_prop E k (JObj kvs)"
  by (simp add: has_prop_def lookup_own)

lemma get_prop_own: "map_of kvs k = Some x \<Longrightarrow> get_prop E (JObj kvs) k = x"
  by (simp add: get_prop_def lookup_own)

lemma array_index_not_digit: "k \<noteq> [] \<Longrightarrow> \<not> is_digit (hd k) \<Longrightarrow> array_index k = None"
  by (cases k) (simp_all add: array_index_def parseInt_def)

subsection \<open>Two concrete comparisons\<close>

text \<open>
  Claim C1. For \<open>original = {}\<close> and \<open>modified = []\<close> the claim expects one \<open>Modified\<close>
  record at \<open>root\<close>. Both values have the \<open>typeof\<close> \<open>'object'\<close>, so the test for
  different types does not fire; they are not both arrays, so the key loop runs over the
  union of their keys, which is empty: the function returns no record at all.
\<close>

theorem compareJson_empty_object_vs_empty_array:
  "compareJson E (JObj []) (JArr []) [] = []"
  by (simp add: compareJson.simps Array_from_Set_def)

text \<open>
  Claim C2, as stated: for \<open>original = {a: {b: 1}}\<close> and \<open>modified = {a: null}\<close> the one
  record would have the type \<open>Modified\<close>. It has not.
\<close>

theorem compareJson_nested_null_not_Modified:
  "map type (compareJson es2023 (JObj [(''a'', JObj [(''b'', JNum 1)])])
       (JObj [(''a'', JNull)]) [])
     \<noteq> [Modified]"
  by (simp add: compareJson.simps[of _ "JObj [(''a'', JObj [(''b'', JNum 1)])]"]
        compareJson.simps[of _ "JObj [(''b'', JNum 1)]"]
        Array_from_Set_def or_root_def keyPath_def has_prop_own get_prop_own
        array_index_not_digit is_digit_def)

text \<open>
  Claim C2, amended. For \<open>original = {a: {b: 1}}\<close> and \<open>modified = {a: null}\<close> the
  function returns one record, of type \<open>Removed\<close>, at path \<open>a\<close>, with the old value
  \<open>{b: 1}\<close> and no new value: the test for a \<open>null\<close> second argument comes before the
  test for different types. There is no record for the nested key \<open>b\<close>.
\<close>

theorem compareJson_nested_null_Removed:
  "compareJson E (JObj [(''a'', JObj [(''b'', JNum 1)])]) (JObj [(''a'', JNull)]) []
     = [\<lparr>type = Removed, path = ''a'', oldValue = Some (JObj [(''b'', JNum 1)]),
          newValue = None\<rparr>]"
  by (simp add: compareJson.simps[of _ "JObj [(''a'', JObj [(''b'', JNum 1)])]"]
        compareJson.simps[of _ "JObj [(''b'', JNum 1)]"]
        Array_from_Set_def or_root_def keyPath_def has_prop_own get_prop_own
        array_index_not_digit is_digit_def)

subsection \<open>The two loops\<close>

lemma compareJson_arrays:
  "isArray a \<Longrightarrow> isArray b \<Longrightarrow>
   compareJson E a b p
     = concat (map (compareJson_item E a b p) [0..<max (arr_length a) (arr_length b)])"
proof -
  assume "isArray a" "isArray b"
  then have c: "typeof a = TyObject" "typeof b = TyObject" "a \<noteq> JNull" "b \<noteq> JNull"
    "a \<noteq> JUndefined" "b \<noteq> JUndefined"
    by (auto elim: isArray.elims)
  with \<open>isArray a\<close> \<open>isArray b\<close> show ?thesis
    by (subst compareJson.simps) (simp add: compareJson_item_def[abs_def])
qed

lemma compareJson_objects:
  "is_container a \<Longrightarrow> is_container b \<Longrightarrow> \<not> (isArray a \<and> isArray b) \<Longrightarrow>
   compareJson E a b p
     = concat (map (compareJson_key E a b p) (Array_from_Set (Object_keys a @ Object_keys b)))"
  by (subst compareJson.simps) (auto simp: compareJson_key_def[abs_def] is_container_def)

lemma compareJson_leaf:
  "\<not> (is_container a \<and> is_container b) \<Longrightarrow>
   compareJson E a b p = [] \<or> (\<exists>r. compareJson E a b p = [r] \<and> path r = or_root p)"
  by (subst (1 2) compareJson.simps) (auto simp: is_container_def)


lemma compareJson_cases:
  obtains (leaf) "\<not> (is_container a \<and> is_container b)"
  | (arrays) "isArray a" "isArray b"
  | (objects) "is_container a" "is_container b" "\<not> (isArray a \<and> isArray b)"
  by (cases "is_container a \<and> is_container b"; cases "isArray a \<and> isArray b") auto

lemma compareJson_refl: "compareJson E a a p = []"
proof (induction "rank a" arbitrary: a p rule: less_induct)
  case less
  show ?case
  proof (cases a a rule: compareJson_cases)
    case leaf
    then show ?thesis by (subst compareJson.simps) (auto simp: is_container_def)
  next
    case arrays
    have "compareJson_item E a a p i = []" if "i < arr_length a" for i
      using that less[of "js_index a i"] by (simp add: compareJson_item_def rank_js_index)
    with arrays show ?thesis by (simp add: compareJson_arrays)
  next
    case objects
    have "compareJson_key E a a p k = []" if "k \<in> set (Object_keys a)" for k
    proof -
      from that have h: "has_prop E k a" by (rule has_prop_Object_keys)
      then have "rank (get_prop E a k) < rank a" by (rule rank_get_prop)
      then have "compareJson E (get_prop E a k) (get_prop E a k) (keyPath p k) = []"
        by (rule less)
      with h show ?thesis by (simp add: compareJson_key_def)
    qed
    with objects show ?thesis by (simp add: compareJson_objects set_Array_from_Set)
  qed
qed

subsection \<open>Swapping the arguments\<close>

lemma compareJson_mirror_aux:
  "set (compareJson E b a p) = mirror ` set (compareJson E a b p)"
proof (induction "rank a" arbitrary: a b p rule: less_induct)
  case less
  show ?case
  proof (cases a b rule: compareJson_cases)
    case leaf
    then show ?thesis
      by (subst (1 2) compareJson.simps) (auto simp: mirror_def is_container_def)
  next
    case arrays
    have "set (compareJson_item E b a p i) = mirror ` set (compareJson_item E a b p i)"
      if "i < max (arr_length a) (arr_length b)" for i
    proof (cases "i < arr_length a \<and> i < arr_length b")
      case True
      then have "rank (js_index a i) < rank a" by (simp add: rank_js_index)
      then have "set (compareJson E (js_index b i) (js_index a i) (itemPath p i))
          = mirror ` set (compareJson E (js_index a i) (js_index b i) (itemPath p i))"
        by (rule less)
      with True show ?thesis by (simp add: compareJson_item_def)
    next
      case False
      with that show ?thesis by (auto simp: compareJson_item_def mirror_def)
    qed
    then have "(\<Union>i\<in>{..<max (arr_length a) (arr_length b)}. set (compareJson_item E b a p i))
        = (\<Union>i\<in>{..<max (arr_length a) (arr_length b)}. mirror ` set (compareJson_item E a b p i))"
      by (intro SUP_cong refl) simp
    also have "\<dots> = mirror ` (\<Union>i\<in>{..<max (arr_length a) (arr_length b)}.
        set (compareJson_item E a b p i))"
      by (simp only: image_UN)
    finally show ?thesis
      using arrays by (simp add: compareJson_arrays max.commute atLeast0LessThan)
  next
    case objects
    have "set (compareJson_key E b a p k) = mirror ` set (compareJson_key E a b p k)"
      if "k \<in> set (Object_keys a) \<union> set (Object_keys b)" for k
    proof (cases "has_prop E k a \<and> has_prop E k b")
      case True
      then have "rank (get_prop E a k) < rank a" by (simp add: rank_get_prop)
      then have "set (compareJson E (get_prop E b k) (get_prop E a k) (keyPath p k))
          = mirror ` set (compareJson E (get_prop E a k) (get_prop E b k) (keyPath p k))"
        by (rule less)
      with True show ?thesis by (simp add: compareJson_key_def)
    next
      case False
      with that show ?thesis
        by (auto simp: compareJson_key_def mirror_def dest: has_prop_Object_keys)
    qed
    then have "(\<Union>k\<in>set (Object_keys a) \<union> set (Object_keys b). set (compareJson_key E b a p k))
        = (\<Union>k\<in>set (Object_keys a) \<union> set (Object_keys b).
             mirror ` set (compareJson_key E a b p k))"
      by (intro SUP_cong refl)
    also have "\<dots> = mirror ` (\<Union>k\<in>set (Object_keys a) \<union> set (Object_keys b).
        set (compareJson_key E a b p k))"
      by (simp only: image_UN)
    finally have U: "(\<Union>k\<in>set (Object_keys a) \<union> set (Object_keys b).
          set (compareJson_key E b a p k))
        = mirror ` (\<Union>k\<in>set (Object_keys a) \<union> set (Object_keys b).
          set (compareJson_key E a b p k))" .
    from objects have o': "\<not> (isArray b \<and> isArray a)" by blast
    have "set (compareJson E a b p)
        = (\<Union>k\<in>set (Object_keys a) \<union> set (Object_keys b). set (compareJson_key E a b p k))"
      using objects by (simp add: compareJson_objects set_Array_from_Set)
    moreover have "set (compareJson E b a p)
        = (\<Union>k\<in>set (Object_keys a) \<union> set (Object_keys b). set (compareJson_key E b a p k))"
      using objects(1,2) o' by (simp add: compareJson_objects set_Array_from_Set Un_commute)
    ultimately show ?thesis using U by simp
  qed
qed

text \<open>
  Claim C4. For all values \<open>A\<close> and \<open>B\<close>, the records of \<open>compareJson(B, A)\<close> are the
  mirrored records of \<open>compareJson(A, B)\<close>: an \<open>Added\<close> record of one direction is a
  \<open>Removed\<close> record of the other at the same path with the same value, a \<open>Modified\<close>
  record is a \<open>Modified\<close> record at the same path with old and new value exchanged.
  In particular both outputs have the same set of paths. This holds in every run-time
  environment, inherited properties included.
\<close>

theorem compareJson_swap_mirror:
  "set (compareJson E B A p) = mirror ` set (compareJson E A B p)
   \<and> path ` set (compareJson E B A p) = path ` set (compareJson E A B p)"
proof -
  have m: "set (compareJson E B A p) = mirror ` set (compareJson E A B p)"
    by (rule compareJson_mirror_aux)
  have "path ` mirror ` set (compareJson E A B p) = path ` set (compareJson E A B p)"
    by (simp add: image_image mirror_def)
  with m show ?thesis by simp
qed

subsection \<open>Paths\<close>

lemma itemPath_eq: "itemPath p i = p @ ''['' @ show_nat i @ '']''"
  by (simp add: itemPath_def)

lemma keyPath_eq: "keyPath p k = (if p = [] then [] else p @ ''.'') @ k"
  by (simp add: keyPath_def)

lemma path_shape:
  "p \<noteq> [] \<Longrightarrow> r \<in> set (compareJson E a b p) \<Longrightarrow> \<exists>s. path r = p @ s \<and> sfx_ok s"
proof (induction "rank a" arbitrary: a b p r rule: less_induct)
  case less
  show ?case
  proof (cases a b rule: compareJson_cases)
    case leaf
    from compareJson_leaf[OF this, of E p] less.prems show ?thesis
      by (auto simp: or_root_def sfx_ok_def)
  next
    case arrays
    with less.prems(2) obtain i where i: "r \<in> set (compareJson_item E a b p i)"
      by (auto simp: compareJson_arrays)
    show ?thesis
    proof (cases "i < arr_length a \<and> i < arr_length b")
      case False
      with i have "path r = itemPath p i"
        by (auto simp: compareJson_item_def split: if_splits)
      then show ?thesis by (simp add: itemPath_eq sfx_ok_def)
    next
      case True
      with i have r: "r \<in> set (compareJson E (js_index a i) (js_index b i) (itemPath p i))"
        by (simp add: compareJson_item_def)
      have "rank (js_index a i) < rank a" using True by (simp add: rank_js_index)
      from less.hyps[OF this _ r] obtain s where "path r = itemPath p i @ s" "sfx_ok s"
        by (auto simp: itemPath_eq)
      then show ?thesis by (simp add: itemPath_eq sfx_ok_def)
    qed
  next
    case objects
    with less.prems(2) obtain k where
      k: "r \<in> set (compareJson_key E a b p k)"
      by (auto simp: compareJson_objects)
    show ?thesis
    proof (cases "has_prop E k a \<and> has_prop E k b")
      case False
      with k have "path r = keyPath p k" by (auto simp: compareJson_key_def split: if_splits)
      with less.prems(1) show ?thesis by (simp add: keyPath_eq sfx_ok_def)
    next
      case True
      with k have r: "r \<in> set (compareJson E (get_prop E a k) (get_prop E b k) (keyPath p k))"
        by (simp add: compareJson_key_def)
      have "rank (get_prop E a k) < rank a" using True by (simp add: rank_get_prop)
      from less.hyps[OF this _ r] less.prems(1) obtain s where "path r = keyPath p k @ s" "sfx_ok s"
        by (auto simp: keyPath_eq)
      with less.prems(1) show ?thesis by (simp add: keyPath_eq sfx_ok_def)
    qed
  qed
qed

lemma takeWhile_append_stop:
  "\<forall>c\<in>set xs. P c \<Longrightarrow> s = [] \<or> \<not> P (hd s) \<Longrightarrow> takeWhile P (xs @ s) = xs"
  by (cases s) (simp_all add: takeWhile_append2)

lemma key_sep:
  assumes "key_ok k1" "key_ok k2" "sfx_ok s1" "sfx_ok s2" "keyPath p k1 @ s1 = keyPath p k2 @ s2"
  shows "k1 = k2"
proof -
  let ?P = "\<lambda>c. c \<noteq> CHR ''.'' \<and> c \<noteq> CHR ''[''"
  from assms(5) have e: "k1 @ s1 = k2 @ s2" by (simp add: keyPath_eq)
  have "takeWhile ?P (k1 @ s1) = k1"
    using assms(1,3) by (intro takeWhile_append_stop) (auto simp: key_ok_def sfx_ok_def)
  moreover have "takeWhile ?P (k2 @ s2) = k2"
    using assms(2,4) by (intro takeWhile_append_stop) (auto simp: key_ok_def sfx_ok_def)
  ultimately show ?thesis using e by simp
qed

lemma item_sep:
  assumes "itemPath p i @ s1 = itemPath p j @ s2"
  shows "i = j"
proof -
  from assms have e: "show_nat i @ (CHR '']'' # s1) = show_nat j @ (CHR '']'' # s2)"
    by (simp add: itemPath_eq)
  have "takeWhile is_digit (show_nat n @ (CHR '']'' # s)) = show_nat n" for n s
    using show_nat_digits[of n] by (intro takeWhile_append_stop) (auto simp: is_digit_def)
  from this[of i s1] this[of j s2] e have "show_nat i = show_nat j" by simp
  then show ?thesis by (rule show_nat_inj)
qed

lemma key_ok_show_nat: "key_ok (show_nat i)"
  using show_nat_digits[of i] by (auto simp: key_ok_def is_digit_def)

lemma key_ok_Object_keys: "keys_ok v \<Longrightarrow> k \<in> set (Object_keys v) \<Longrightarrow> key_ok k"
proof (cases v)
  case (JObj kvs)
  assume "keys_ok v" "k \<in> set (Object_keys v)"
  with JObj have "k \<in> fst ` set kvs" "\<forall>(k, v)\<in>set kvs. key_ok k \<and> keys_ok v"
    by (simp_all only: set_Object_keys_JObj keys_ok.simps)
  then show ?thesis by auto
next
  case (JArr xs)
  assume "k \<in> set (Object_keys v)"
  with JArr show ?thesis by (auto simp: key_ok_show_nat)
qed simp_all

lemma keys_ok_js_index: "keys_ok v \<Longrightarrow> keys_ok (js_index v i)"
  by (cases v) auto

lemma keys_ok_own_property:
  "own_property E r h k = Some x \<Longrightarrow> keys_ok h \<Longrightarrow> keys_ok x"
proof (cases h)
  case (JObj kvs)
  assume "own_property E r h k = Some x" "keys_ok h"
  with JObj show ?thesis by (auto dest: map_of_SomeD)
next
  case (JArr xs)
  assume "own_property E r h k = Some x" "keys_ok h"
  with JArr show ?thesis by (auto split: option.splits if_splits)
next
  case (JPrototype h')
  assume "own_property E r h k = Some x"
  with JPrototype show ?thesis by (cases h') (auto split: option.splits if_splits)
qed simp_all

lemma keys_ok_lookup:
  "lookup E r h k = Some x \<Longrightarrow> keys_ok h \<Longrightarrow> keys_ok x"
proof (induction E r h k rule: lookup.induct)
  case (1 E r h k)
  show ?case
  proof (cases "own_property E r h k")
    case (Some y)
    with "1.prems" show ?thesis
      by (auto simp: lookup.simps[of E r h] dest: keys_ok_own_property)
  next
    case None
    with "1.prems"(1) obtain h' where h': "prototype_of h = Some h'"
      "lookup E r (JPrototype h') k = Some x"
      by (auto simp: lookup.simps[of E r h] split: option.splits)
    from "1.IH"[OF None h'(1) h'(2)] show ?thesis by simp
  qed
qed

lemma keys_ok_get_prop: "keys_ok v \<Longrightarrow> keys_ok (get_prop E v k)"
  by (auto simp: get_prop_def split: option.splits dest: keys_ok_lookup)

lemma distinct_concat_map:
  assumes "distinct ks" "\<And>k. k \<in> set ks \<Longrightarrow> distinct (g k)"
    "\<And>k1 k2. k1 \<in> set ks \<Longrightarrow> k2 \<in> set ks \<Longrightarrow> k1 \<noteq> k2 \<Longrightarrow> set (g k1) \<inter> set (g k2) = {}"
  shows "distinct (concat (map g ks))"
  using assms
proof (induction ks)
  case Nil
  show ?case by simp
next
  case (Cons a ks)
  have "distinct (concat (map g ks))"
    using Cons.prems by (intro Cons.IH) auto
  moreover have "distinct (g a)" using Cons.prems(2) by simp
  moreover have "set (g a) \<inter> set (g k) = {}" if "k \<in> set ks" for k
    using Cons.prems(1) Cons.prems(3)[of a k] that by auto
  ultimately show ?case by auto
qed

lemma item_paths:
  assumes "r \<in> set (compareJson_item E a b p i)"
  shows "\<exists>s. path r = itemPath p i @ s"
proof (cases "arr_length a \<le> i \<or> arr_length b \<le> i")
  case True
  with assms show ?thesis by (auto simp: compareJson_item_def split: if_splits)
next
  case False
  with assms have "r \<in> set (compareJson E (js_index a i) (js_index b i) (itemPath p i))"
    by (simp add: compareJson_item_def)
  moreover have "itemPath p i \<noteq> []" by (simp add: itemPath_eq)
  ultimately show ?thesis using path_shape by blast
qed

lemma key_paths:
  assumes "r \<in> set (compareJson_key E a b p k)" "keyPath p k \<noteq> []"
  shows "\<exists>s. path r = keyPath p k @ s \<and> sfx_ok s"
proof (cases "has_prop E k a \<and> has_prop E k b")
  case False
  with assms show ?thesis by (auto simp: compareJson_key_def sfx_ok_def split: if_splits)
next
  case True
  with assms have "r \<in> set (compareJson E (get_prop E a k) (get_prop E b k) (keyPath p k))"
    by (simp add: compareJson_key_def)
  with assms(2) show ?thesis using path_shape by blast
qed

lemma distinct_paths:
  "keys_ok a \<Longrightarrow> keys_ok b \<Longrightarrow>
   (p = [] \<longrightarrow> [] \<notin> set (Object_keys a) \<union> set (Object_keys b)) \<Longrightarrow>
   distinct (map path (compareJson E a b p))"
proof (induction "rank a" arbitrary: a b p rule: less_induct)
  case less
  show ?case
  proof (cases a b rule: compareJson_cases)
    case leaf
    from compareJson_leaf[OF this, of E p] show ?thesis by auto
  next
    case arrays
    let ?g = "\<lambda>i. map path (compareJson_item E a b p i)"
    have d: "distinct (?g i)" for i
    proof (cases "i < arr_length a \<and> i < arr_length b")
      case False
      then show ?thesis by (auto simp: compareJson_item_def)
    next
      case True
      then have "rank (js_index a i) < rank a" by (simp add: rank_js_index)
      moreover have "keys_ok (js_index a i)" "keys_ok (js_index b i)"
        using less.prems by (simp_all add: keys_ok_js_index)
      moreover have "itemPath p i \<noteq> []" by (simp add: itemPath_eq)
      ultimately have "distinct (map path (compareJson E (js_index a i) (js_index b i) (itemPath p i)))"
        by (intro less.hyps) simp_all
      with True show ?thesis by (simp add: compareJson_item_def)
    qed
    have s: "set (?g i) \<inter> set (?g j) = {}" if "i \<noteq> j" for i j
    proof (rule ccontr)
      assume "set (?g i) \<inter> set (?g j) \<noteq> {}"
      then obtain r1 r2 where r: "r1 \<in> set (compareJson_item E a b p i)"
        "r2 \<in> set (compareJson_item E a b p j)" "path r1 = path r2"
        by auto
      from item_paths[OF r(1)] obtain s1 where s1: "path r1 = itemPath p i @ s1" by blast
      from item_paths[OF r(2)] obtain s2 where s2: "path r2 = itemPath p j @ s2" by blast
      from s1 s2 r(3) have "itemPath p i @ s1 = itemPath p j @ s2" by simp
      then have "i = j" by (rule item_sep)
      with that show False by simp
    qed
    have "distinct (concat (map ?g [0..<max (arr_length a) (arr_length b)]))"
    proof (rule distinct_concat_map)
      show "distinct [0..<max (arr_length a) (arr_length b)]" by simp
    qed (use d s in blast)+
    then show ?thesis
      using arrays by (simp add: compareJson_arrays map_concat comp_def)
  next
    case objects
    let ?ks = "Array_from_Set (Object_keys a @ Object_keys b)"
    let ?g = "\<lambda>k. map path (compareJson_key E a b p k)"
    have ok: "key_ok k" if "k \<in> set ?ks" for k
      using that less.prems by (auto simp: set_Array_from_Set dest: key_ok_Object_keys)
    have ne: "keyPath p k \<noteq> []" if "k \<in> set ?ks" for k
      using that less.prems(3) by (cases "p = []") (auto simp: keyPath_eq set_Array_from_Set)
    have d: "distinct (?g k)" if "k \<in> set ?ks" for k
    proof (cases "has_prop E k a \<and> has_prop E k b")
      case False
      then show ?thesis by (auto simp: compareJson_key_def)
    next
      case True
      then have "rank (get_prop E a k) < rank a" by (simp add: rank_get_prop)
      moreover have "keys_ok (get_prop E a k)" "keys_ok (get_prop E b k)"
        using less.prems by (simp_all add: keys_ok_get_prop)
      ultimately have "distinct (map path (compareJson E (get_prop E a k) (get_prop E b k) (keyPath p k)))"
        using ne[OF that] by (intro less.hyps) simp_all
      with True show ?thesis by (simp add: compareJson_key_def)
    qed
    have s: "set (?g k1) \<inter> set (?g k2) = {}"
      if "k1 \<in> set ?ks" "k2 \<in> set ?ks" "k1 \<noteq> k2" for k1 k2
    proof (rule ccontr)
      assume "set (?g k1) \<inter> set (?g k2) \<noteq> {}"
      then obtain r1 r2 where r: "r1 \<in> set (compareJson_key E a b p k1)"
        "r2 \<in> set (compareJson_key E a b p k2)" "path r1 = path r2"
        by auto
      from key_paths[OF r(1) ne[OF that(1)]] obtain s1
        where s1: "path r1 = keyPath p k1 @ s1" "sfx_ok s1"
        by blast
      from key_paths[OF r(2) ne[OF that(2)]] obtain s2
        where s2: "path r2 = keyPath p k2 @ s2" "sfx_ok s2"
        by blast
      from s1 s2 r(3) have "keyPath p k1 @ s1 = keyPath p k2 @ s2" by simp
      with ok[OF that(1)] ok[OF that(2)] s1(2) s2(2) have "k1 = k2" by (rule key_sep)
      with that show False by simp
    qed
    have "distinct (concat (map ?g ?ks))"
    proof (rule distinct_concat_map)
      show "distinct ?ks" by (rule distinct_Array_from_Set)
    qed (use d s in blast)+
    then show ?thesis
      using objects by (simp add: compareJson_objects map_concat comp_def)
  qed
qed

text \<open>
  Claim C6, as stated: no two records of one call carry the same path. A key with a dot
  in it gives the path that a nested key gives.
\<close>

theorem compareJson_duplicate_paths:
  "\<not> distinct (map path (compareJson es2023
       (JObj [(''a.b'', JNum 1), (''a'', JObj [(''b'', JNum 2)])])
       (JObj [(''a.b'', JNum 3), (''a'', JObj [(''b'', JNum 4)])]) []))"
  by code_simp

text \<open>
  A key with a bracket in it, and the empty key at the top with the empty starting
  path, give a path twice as well; an empty key further down does not.
\<close>

lemma bracket_key_repeats_path:
  "map path (compareJson es2023
       (JObj [(''a[0]'', JNum 1), (''a'', JArr [JNum 2])])
       (JObj [(''a[0]'', JNum 3), (''a'', JArr [JNum 4])]) []) = [''a[0]'', ''a[0]'']"
  by code_simp

lemma empty_key_repeats_path:
  "map path (compareJson es2023
       (JObj [([], JNum 1), (''root'', JNum 2)])
       (JObj [([], JNum 3), (''root'', JNum 4)]) []) = [''root'', ''root'']"
  by code_simp

lemma nested_empty_key_paths:
  "map path (compareJson es2023
       (JObj [(''a'', JObj [([], JNum 1), (''b'', JNum 2)])])
       (JObj [(''a'', JObj [([], JNum 3), (''b'', JNum 4)])]) []) = [''a.'', ''a.b'']"
  by code_simp

text \<open>
  Claim C6, amended. For two values none of whose object keys contains a dot or an
  opening bracket, and whose top-level keys are not empty when the starting path is
  empty, no two records of one call to \<open>compareJson\<close> carry the same path. This holds in
  every run-time environment, for keys that name inherited properties too.
\<close>

theorem compareJson_paths_distinct:
  "keys_ok A \<Longrightarrow> keys_ok B \<Longrightarrow>
   (p = [] \<longrightarrow> [] \<notin> set (Object_keys A) \<union> set (Object_keys B)) \<Longrightarrow>
   distinct (map path (compareJson E A B p))"
  by (rule distinct_paths)

theorem compareJson_paths_distinct_witness:
  "keys_ok (JObj [(''toString'', JObj [([], JNum 1), (''c'', JArr [JNum 1, JNum 2])])])
   \<and> keys_ok (JObj [(''a'', JObj [(''b'', JNum 2), (''c'', JArr [JNum 1, JNum 3, JNum 4])]),
                     (''toString'', JObj [([], JNum 2), (''c'', JArr [JNum 1, JNum 3, JNum 4])])])
   \<and> [] \<notin> set (Object_keys
         (JObj [(''toString'', JObj [([], JNum 1), (''c'', JArr [JNum 1, JNum 2])])]))
       \<union> set (Object_keys
         (JObj [(''a'', JObj [(''b'', JNum 2), (''c'', JArr [JNum 1, JNum 3, JNum 4])]),
                (''toString'', JObj [([], JNum 2), (''c'', JArr [JNum 1, JNum 3, JNum 4])])]))
   \<and> distinct (map path (compareJson es2023
         (JObj [(''toString'', JObj [([], JNum 1), (''c'', JArr [JNum 1, JNum 2])])])
         (JObj [(''a'', JObj [(''b'', JNum 2), (''c'', JArr [JNum 1, JNum 3, JNum 4])]),
                (''toString'', JObj [([], JNum 2), (''c'', JArr [JNum 1, JNum 3, JNum 4])])]) []))
   \<and> map path (compareJson es2023
         (JObj [(''toString'', JObj [([], JNum 1), (''c'', JArr [JNum 1, JNum 2])])])
         (JObj [(''a'', JObj [(''b'', JNum 2), (''c'', JArr [JNum 1, JNum 3, JNum 4])]),
                (''toString'', JObj [([], JNum 2), (''c'', JArr [JNum 1, JNum 3, JNum 4])])]) [])
       = [''toString.'', ''toString.c[1]'', ''toString.c[2]'', ''a'']"
proof -
  let ?A = "JObj [(''toString'', JObj [([], JNum 1), (''c'', JArr [JNum 1, JNum 2])])]"
  let ?B = "JObj [(''a'', JObj [(''b'', JNum 2), (''c'', JArr [JNum 1, JNum 3, JNum 4])]),
                  (''toString'', JObj [([], JNum 2), (''c'', JArr [JNum 1, JNum 3, JNum 4])])]"
  have h: "keys_ok ?A" "keys_ok ?B" by (simp_all add: key_ok_def)
  have e: "[] \<notin> set (Object_keys ?A) \<union> set (Object_keys ?B)"
    by (simp only: set_Object_keys_JObj) simp
  then have e': "[] = [] \<longrightarrow> [] \<notin> set (Object_keys ?A) \<union> set (Object_keys ?B)" by simp
  have p: "map path (compareJson es2023 ?A ?B [])
      = [''toString.'', ''toString.c[1]'', ''toString.c[2]'', ''a'']"
    by code_simp
  from h e compareJson_paths_distinct[OF h e', of es2023] p show ?thesis by blast
qed

section \<open>Properties of the structural renderer\<close>

subsection \<open>The loop\<close>

lemma generateDiff_not_containers:
  "\<not> (is_container a \<and> is_container b) \<Longrightarrow> generateDiff E pr a b ind = []"
  by (subst generateDiff.simps) (auto simp: is_container_def Let_def)

lemma generateDiff_containers:
  "is_container a \<Longrightarrow> is_container b \<Longrightarrow>
   generateDiff E pr a b ind = concat (map (generateDiff_key E pr a b ind) (generateDiff_keys a b))"
proof -
  assume "is_container a" "is_container b"
  then have c: "typeof a = TyObject" "typeof b = TyObject" "a \<noteq> JNull" "b \<noteq> JNull"
    "a \<noteq> JUndefined" "b \<noteq> JUndefined"
    by (auto simp: is_container_def)
  show ?thesis
    by (subst generateDiff.simps)
      (simp add: c generateDiff_key_def[abs_def] generateDiff_keys_def Let_def)
qed

lemma index_keys_union:
  "Array_from_Set (map show_nat [0..<n] @ map show_nat [0..<m]) = map show_nat [0..<max n m]"
proof -
  have d: "distinct (map show_nat [0..<j])" for j
    by (auto simp: distinct_map inj_on_def dest: show_nat_inj)
  have "map show_nat [0..<n] @ filter (\<lambda>y. y \<notin> set (map show_nat [0..<n])) (map show_nat [0..<m])
      = map show_nat [0..<max n m]"
  proof (cases "n \<le> m")
    case True
    then have "[0..<m] = [0..<n] @ [n..<m]"
      by (metis le_Suc_ex upt_add_eq_append zero_le)
    moreover have "filter (\<lambda>y. y \<notin> set (map show_nat [0..<n])) (map show_nat [0..<n]) = []"
      by (simp add: filter_empty_conv)
    moreover have "filter (\<lambda>y. y \<notin> set (map show_nat [0..<n])) (map show_nat [n..<m])
        = map show_nat [n..<m]"
      by (auto intro!: filter_True dest!: show_nat_inj)
    ultimately show ?thesis using True by (simp add: max_def del: set_map)
  next
    case False
    then have "set (map show_nat [0..<m]) \<subseteq> set (map show_nat [0..<n])"
      by auto
    then have "filter (\<lambda>y. y \<notin> set (map show_nat [0..<n])) (map show_nat [0..<m]) = []"
      by (auto simp: filter_empty_conv)
    with False show ?thesis by (simp add: max_def del: set_map)
  qed
  then show ?thesis
    by (simp add: Array_from_Set_append d del: set_map)
qed

lemma generateDiff_keys_arrays:
  "isArray a \<Longrightarrow> isArray b \<Longrightarrow>
   generateDiff_keys a b = map show_nat [0..<max (arr_length a) (arr_length b)]"
  by (simp add: generateDiff_keys_def index_keys_union del: set_map)

lemma generateDiff_keys_objects:
  "\<not> (isArray a \<and> isArray b) \<Longrightarrow>
   generateDiff_keys a b = sort (Array_from_Set (Object_keys a @ Object_keys b))"
  by (auto simp: generateDiff_keys_def)



lemma set_generateDiff_keys:
  "set (generateDiff_keys a b)
     = (if isArray a \<and> isArray b
        then show_nat ` {..<max (arr_length a) (arr_length b)}
        else set (Object_keys a) \<union> set (Object_keys b))"
proof (cases "isArray a \<and> isArray b")
  case True
  then show ?thesis by (simp add: generateDiff_keys_arrays atLeast0LessThan)
next
  case False
  then have "generateDiff_keys a b = sort (Array_from_Set (Object_keys a @ Object_keys b))"
    by (rule generateDiff_keys_objects)
  with False show ?thesis by (auto simp: set_Array_from_Set)
qed

subsection \<open>Comparing a value with itself\<close>

lemma generateDiff_refl:
  "\<forall>l\<in>set (generateDiff E pr a a ind). type_line l = Unchanged \<and> isStructural l = (key l = None)"
proof (induction "rank a" arbitrary: a ind rule: less_induct)
  case less
  show ?case
  proof (cases "is_container a")
    case False
    then show ?thesis by (simp add: generateDiff_not_containers)
  next
    case True
    have "\<forall>l\<in>set (generateDiff_key E pr a a ind k).
            type_line l = Unchanged \<and> isStructural l = (key l = None)"
      if k: "k \<in> set (generateDiff_keys a a)" for k
    proof (cases "isArray a")
      case arr: True
      with k obtain i where i: "k = show_nat i" "i < arr_length a"
        by (auto simp: set_generateDiff_keys)
      then have "rank (js_index a i) < rank a" by (simp add: rank_js_index)
      then have "\<forall>l\<in>set (generateDiff E pr (js_index a i) (js_index a i) (ind + 1)).
            type_line l = Unchanged \<and> isStructural l = (key l = None)"
        by (rule less)
      then show ?thesis
        using arr i by (auto simp: generateDiff_key_def parseInt_show_nat Let_def)
    next
      case obj: False
      with k have hp: "has_prop E k a"
        by (auto simp: set_generateDiff_keys has_prop_Object_keys)
      then have "rank (get_prop E a k) < rank a" by (rule rank_get_prop)
      then have "\<forall>l\<in>set (generateDiff E pr (get_prop E a k) (get_prop E a k) (ind + 1)).
            type_line l = Unchanged \<and> isStructural l = (key l = None)"
        by (rule less)
      then show ?thesis
        using obj hp by (auto simp: generateDiff_key_def Let_def)
    qed
    then show ?thesis
      using True by (auto simp: generateDiff_containers)
  qed
qed

text \<open>
  Claim C5. For every value \<open>A\<close>, \<open>compareJson(A, A)\<close> is the empty list, and every line
  of \<open>generateDiff(A, A, indent)\<close> has the type \<open>Unchanged\<close>; such a line is either a
  structural bracket line, which has no key, or the line of an unchanged leaf, which
  has one.
\<close>

theorem identity_law:
  "compareJson E A A p = []
   \<and> list_all (\<lambda>l. type_line l = Unchanged \<and> isStructural l = (key l = None))
        (generateDiff E stringify A A ind)"
  using compareJson_refl[of E A p] generateDiff_refl[of E stringify A ind]
  by (simp add: list_all_iff)

subsection \<open>An object against an array\<close>

text \<open>
  A key that both sides have, with values of different \<open>typeof\<close>, gives one \<open>Modified\<close>
  line with both printed values.
\<close>

lemma generateDiff_key_typeof_differs:
  assumes "key_present E a (isArray a \<and> isArray b) k" "key_present E b (isArray a \<and> isArray b) k"
    and "typeof (key_value E a (isArray a \<and> isArray b) k)
           \<noteq> typeof (key_value E b (isArray a \<and> isArray b) k)"
  shows "generateDiff_key E stringify a b ind k =
    [\<lparr>type_line = Modified, key = Some k, indent = ind,
       content = repeat ''  '' ind
         @ (if isArray a \<and> isArray b then [] else [CHR 0x22] @ k @ [CHR 0x22] @ '': ''),
       oldValue_line = stringify (key_value E a (isArray a \<and> isArray b) k),
       newValue_line = stringify (key_value E b (isArray a \<and> isArray b) k),
       isStructural = False\<rparr>]"
  unfolding generateDiff_key_def Let_def key_value_def[symmetric] key_present_def[symmetric]
  using assms by simp

text \<open>
  Claim C3. The claim expects one \<open>Modified\<close> line for a key whose two values have
  different types, object against array included. For \<open>{a: {}}\<close> and \<open>{a: []}\<close> the
  two values of \<open>a\<close> both have the \<open>typeof\<close> \<open>'object'\<close>: the renderer takes the branch
  for two containers, walks into them and emits an opening and a closing bracket line
  of type \<open>Unchanged\<close>, and no \<open>Modified\<close> line.
\<close>

theorem generateDiff_object_vs_array:
  "generateDiff E stringify (JObj [(''a'', JObj [])]) (JObj [(''a'', JArr [])]) 0 =
    [\<lparr>type_line = Unchanged, key = None, indent = 0,
       content = [CHR 0x22] @ ''a'' @ [CHR 0x22] @ '': {'',
       oldValue_line = None, newValue_line = None, isStructural = True\<rparr>,
     \<lparr>type_line = Unchanged, key = None, indent = 0, content = ''}'',
       oldValue_line = None, newValue_line = None, isStructural = True\<rparr>]"
  by (simp add: generateDiff.simps[of _ _ "JObj [(''a'', JObj [])]"]
      generateDiff.simps[of _ _ "JObj []"] has_prop_own get_prop_own array_index_not_digit
      is_digit_def List.map_filter_simps Array_from_Set_def repeat_def)

subsection \<open>The order of the keys\<close>

lemma level_keys_append [simp]: "level_keys ind (xs @ ys) = level_keys ind xs @ level_keys ind ys"
  by (simp add: level_keys_def)

lemma level_keys_Nil [simp]: "level_keys ind [] = []"
  by (simp add: level_keys_def)


















section \<open>Properties of the history store\<close>

lemma dropWhile_all_Nil: "(\<forall>x\<in>set (dropWhile P xs). P x) \<Longrightarrow> dropWhile P xs = []"
  using hd_dropWhile[of P xs] by (cases "dropWhile P xs") auto

lemma trim_Nil_iff: "trim s = [] \<longleftrightarrow> (\<forall>ch\<in>set s. is_space ch)"
proof
  assume "trim s = []"
  then have "\<forall>x\<in>set (dropWhile is_space s). is_space x"
    by (simp add: trim_def dropWhile_eq_Nil_conv)
  then have "dropWhile is_space s = []" by (rule dropWhile_all_Nil)
  then show "\<forall>ch\<in>set s. is_space ch" by (simp add: dropWhile_eq_Nil_conv)
next
  assume "\<forall>ch\<in>set s. is_space ch"
  then show "trim s = []" by (auto simp: trim_def dest: set_dropWhileD)
qed

lemma findIndex_ge: "findIndex P xs \<ge> - 1"
  by (induction xs) (auto simp: Let_def)

lemma findIndex_none: "findIndex P xs = - 1 \<longleftrightarrow> (\<forall>x\<in>set xs. \<not> P x)"
proof (induction xs)
  case Nil
  show ?case by simp
next
  case (Cons a xs)
  have "- 1 \<le> findIndex P xs" by (rule findIndex_ge)
  with Cons show ?case by (auto simp: Let_def)
qed

lemma findIndex_unique:
  "distinct (map f xs) \<Longrightarrow> x \<in> set xs \<Longrightarrow>
   \<exists>k. findIndex (\<lambda>i. f i = f x) xs = int k \<and> k < length xs \<and> xs ! k = x
     \<and> take k xs @ drop (Suc k) xs = filter (\<lambda>i. f i \<noteq> f x) xs"
proof (induction xs)
  case Nil
  then show ?case by simp
next
  case (Cons a xs)
  show ?case
  proof (cases "f a = f x")
    case True
    with Cons.prems have "a = x" by (auto simp: image_iff)
    moreover from Cons.prems True have "filter (\<lambda>i. f i \<noteq> f x) xs = xs"
      by (auto simp: image_iff intro!: filter_True)
    ultimately show ?thesis using True by (intro exI[of _ 0]) simp
  next
    case False
    with Cons.prems have "x \<in> set xs" "distinct (map f xs)" by auto
    from Cons.IH[OF this(2,1)] obtain k where k: "findIndex (\<lambda>i. f i = f x) xs = int k"
      "k < length xs" "xs ! k = x"
      "take k xs @ drop (Suc k) xs = filter (\<lambda>i. f i \<noteq> f x) xs" by blast
    with False show ?thesis by (intro exI[of _ "Suc k"]) (simp add: Let_def)
  qed
qed

lemma splice1_nat: "k < length xs \<Longrightarrow> splice1 (int k) xs = take k xs @ drop (Suc k) xs"
  by (simp add: splice1_def Let_def min_def)

lemma length_splice1: "length (splice1 i xs) \<le> length xs"
  by (simp add: splice1_def Let_def)

lemma set_splice1: "set (splice1 i xs) \<subseteq> set xs"
  by (auto simp: splice1_def Let_def dest: in_set_takeD in_set_dropD)

lemma distinct_map_splice1: "distinct (map f xs) \<Longrightarrow> distinct (map f (splice1 i xs))"
  unfolding splice1_def Let_def
  by (simp add: take_map[symmetric] drop_map[symmetric] set_take_disj_set_drop_if_distinct
        del: take_map drop_map)

lemma addToHistory_existing_eq:
  assumes "distinct (map content_item h)" "item \<in> set h" "trim (content_item item) \<noteq> []"
  shows "addToHistory now (content_item item) h
           = item\<lparr>timestamp := now\<rparr> # filter (\<lambda>i. content_item i \<noteq> content_item item) h"
proof -
  from findIndex_unique[OF assms(1,2)] obtain k where
    k: "findIndex (\<lambda>i. content_item i = content_item item) h = int k" "k < length h" "h ! k = item"
       "take k h @ drop (Suc k) h = filter (\<lambda>i. content_item i \<noteq> content_item item) h"
    by blast
  then show ?thesis using assms(3) by (simp add: addToHistory_def Let_def splice1_nat)
qed

lemma addToHistory_new_eq:
  assumes "trim c \<noteq> []" "c \<notin> content_item ` set h"
  shows "addToHistory now c h
           = take MAX_HISTORY_ITEMS (\<lparr>content_item = c, timestamp = now, preview = createPreview c\<rparr> # h)"
proof -
  from assms(2) have "findIndex (\<lambda>i. content_item i = c) h = - 1"
    by (auto simp: findIndex_none)
  with assms(1) show ?thesis by (simp add: addToHistory_def Let_def)
qed

lemma history_ok_add: assumes "history_ok h" shows "history_ok (addToHistory now c h)"
proof (cases "trim c = []")
  case True
  with assms show ?thesis by (simp add: addToHistory_def)
next
  case False
  show ?thesis
  proof (cases "c \<in> content_item ` set h")
    case True
    then obtain item where item: "item \<in> set h" "content_item item = c" by auto
    with assms False have "addToHistory now c h
        = item\<lparr>timestamp := now\<rparr> # filter (\<lambda>i. content_item i \<noteq> c) h"
      using addToHistory_existing_eq[of h item now] by (simp add: history_ok_def)
    moreover have "length (filter (\<lambda>i. content_item i \<noteq> c) h) < length h"
      using item by (intro length_filter_less[of item]) auto
    ultimately show ?thesis using assms item False
      by (auto simp: history_ok_def distinct_map_filter)
  next
    case False
    with \<open>trim c \<noteq> []\<close> assms show ?thesis
      by (auto simp: addToHistory_new_eq history_ok_def MAX_HISTORY_ITEMS_def
            distinct_map take_Cons' inj_on_def  dest!: in_set_takeD
            intro: distinct_take)
  qed
qed

lemma history_ok_remove: "history_ok h \<Longrightarrow> history_ok (removeFromHistory index h)"
  using length_splice1[of index h] set_splice1[of index h]
  by (auto simp: history_ok_def removeFromHistory_def distinct_map_splice1)

lemma history_ok_apply_op: "history_ok h \<Longrightarrow> history_ok (apply_op op h)"
proof (cases op)
  case (OpAdd now c)
  assume "history_ok h"
  with OpAdd show ?thesis by (simp add: history_ok_add)
next
  case (OpRemove index)
  assume "history_ok h"
  with OpRemove show ?thesis by (simp add: history_ok_remove)
next
  case OpClear
  then show ?thesis by (simp add: history_ok_def clearHistory_def)
qed

lemma run_ops_snoc: "run_ops (ops @ [op]) = apply_op op (run_ops ops)"
  by (simp add: run_ops_def)

lemma run_ops_ok: "history_ok (run_ops ops)"
proof (induction ops rule: rev_induct)
  case Nil
  show ?case by (simp add: run_ops_def history_ok_def)
next
  case (snoc op ops)
  then show ?case by (simp add: run_ops_snoc history_ok_apply_op)
qed


lemma filter_eq_singleton:
  "distinct (map f xs) \<Longrightarrow> x \<in> set xs \<Longrightarrow> filter (\<lambda>i. f i = f x) xs = [x]"
  by (induction xs) (auto simp: image_iff intro!: filter_False)

text \<open>
  Claim C8. After any sequence of calls, adding a content that an entry of the list
  already holds leaves one entry with that content: the old entry, with its time stamp
  set to the time of this call, is at the front, the other entries follow in their
  order, and the list has the length it had.
\<close>

theorem addToHistory_existing_moves_to_front:
  assumes "item \<in> set (run_ops ops)"
  shows "addToHistory now (content_item item) (run_ops ops)
           = item\<lparr>timestamp := now\<rparr>
               # filter (\<lambda>i. content_item i \<noteq> content_item item) (run_ops ops)
         \<and> length (addToHistory now (content_item item) (run_ops ops)) = length (run_ops ops)
         \<and> length (filter (\<lambda>i. content_item i = content_item item)
                     (addToHistory now (content_item item) (run_ops ops))) = 1"
proof -
  let ?h = "run_ops ops"
  from assms have ok: "distinct (map content_item ?h)" "trim (content_item item) \<noteq> []"
    using run_ops_ok[of ops] by (auto simp: history_ok_def)
  have eq: "addToHistory now (content_item item) ?h
           = item\<lparr>timestamp := now\<rparr> # filter (\<lambda>i. content_item i \<noteq> content_item item) ?h"
    using ok(1) assms ok(2) by (rule addToHistory_existing_eq)
  have one: "filter (\<lambda>i. content_item i = content_item item) ?h = [item]"
    using ok(1) assms by (rule filter_eq_singleton)
  have "length (filter (\<lambda>i. content_item i = content_item item) ?h)
          + length (filter (\<lambda>i. content_item i \<noteq> content_item item) ?h) = length ?h"
    using sum_length_filter_compl[of "\<lambda>i. content_item i = content_item item" ?h] by simp
  with one have len: "Suc (length (filter (\<lambda>i. content_item i \<noteq> content_item item) ?h)) = length ?h"
    by simp
  show ?thesis using eq len by simp
qed

theorem addToHistory_existing_moves_to_front_witness:
  "run_ops [OpAdd 1 ''a'', OpAdd 2 ''b'']
     = [\<lparr>content_item = ''b'', timestamp = 2, preview = ''b''\<rparr>,
        \<lparr>content_item = ''a'', timestamp = 1, preview = ''a''\<rparr>]
   \<and> addToHistory 3 ''a'' (run_ops [OpAdd 1 ''a'', OpAdd 2 ''b''])
       = [\<lparr>content_item = ''a'', timestamp = 3, preview = ''a''\<rparr>,
          \<lparr>content_item = ''b'', timestamp = 2, preview = ''b''\<rparr>]"
proof -
  let ?a = "\<lparr>content_item = ''a'', timestamp = 1, preview = ''a''\<rparr>"
  let ?b = "\<lparr>content_item = ''b'', timestamp = 2, preview = ''b''\<rparr>"
  have r: "run_ops [OpAdd 1 ''a'', OpAdd 2 ''b''] = [?b, ?a]"
    by (simp add: run_ops_def addToHistory_def trim_def is_space_def createPreview_def
          MAX_HISTORY_ITEMS_def)
  then have m: "?a \<in> set (run_ops [OpAdd 1 ''a'', OpAdd 2 ''b''])" by simp
  show ?thesis
    using r addToHistory_existing_moves_to_front[OF m, of 3] by simp
qed

lemma findIndex_bounds:
  "findIndex P xs \<noteq> - 1 \<Longrightarrow> 0 \<le> findIndex P xs \<and> findIndex P xs < int (length xs)"
  by (induction xs) (auto simp: Let_def split: if_splits)

lemma length_addToHistory_le:
  assumes "length h \<le> MAX_HISTORY_ITEMS"
  shows "length (addToHistory now c h) \<le> MAX_HISTORY_ITEMS"
proof (cases "findIndex (\<lambda>item. content_item item = c) h = - 1")
  case True
  with assms show ?thesis by (simp add: addToHistory_def Let_def)
next
  case False
  from findIndex_bounds[OF this] obtain k where
    k: "findIndex (\<lambda>item. content_item item = c) h = int k" "k < length h"
    by (metis nat_less_iff nat_0_le)
  then have "length (splice1 (int k) h) = length h - 1"
    by (simp add: splice1_nat)
  with k assms False show ?thesis by (auto simp: addToHistory_def Let_def)
qed

lemma length_apply_op_le:
  "length h \<le> MAX_HISTORY_ITEMS \<Longrightarrow> length (apply_op op h) \<le> MAX_HISTORY_ITEMS"
  using length_splice1[of _ h]
  by (cases op) (auto simp: length_addToHistory_le removeFromHistory_def clearHistory_def
        intro: order_trans)

text \<open>
  Claim C9. After any sequence of calls, starting from the empty list, the list holds
  at most 50 entries; more generally each of the three operations takes a list of at
  most 50 entries to a list of at most 50 entries. Adding a content that is not blank
  and not yet in a list puts the new entry at the front and keeps the first 49 of the
  old entries: at the cap the entry at the back, the oldest one, is dropped.
\<close>

theorem history_capped_at_50:
  "length (run_ops ops) \<le> 50
   \<and> (length h \<le> 50 \<longrightarrow> length (apply_op op h) \<le> 50)
   \<and> (trim c \<noteq> [] \<longrightarrow> c \<notin> content_item ` set h \<longrightarrow>
        addToHistory now c h
          = \<lparr>content_item = c, timestamp = now, preview = createPreview c\<rparr> # take 49 h)"
proof -
  have "length (run_ops ops) \<le> 50"
    using run_ops_ok[of ops] by (simp add: history_ok_def MAX_HISTORY_ITEMS_def)
  moreover have "length (apply_op op h) \<le> 50" if "length h \<le> 50"
    using length_apply_op_le[of h op] that by (simp add: MAX_HISTORY_ITEMS_def)
  moreover have "addToHistory now c h
      = \<lparr>content_item = c, timestamp = now, preview = createPreview c\<rparr> # take 49 h"
    if "trim c \<noteq> []" "c \<notin> content_item ` set h"
    using addToHistory_new_eq[OF that, of now] by (simp add: MAX_HISTORY_ITEMS_def)
  ultimately show ?thesis by blast
qed

theorem history_capped_at_50_witness:
  "length (run_ops (map (\<lambda>n. OpAdd (int n) (show_nat n)) [0..<50])) = 50
   \<and> addToHistory 50 ''new'' (run_ops (map (\<lambda>n. OpAdd (int n) (show_nat n)) [0..<50]))
        = \<lparr>content_item = ''new'', timestamp = 50, preview = ''new''\<rparr>
            # take 49 (run_ops (map (\<lambda>n. OpAdd (int n) (show_nat n)) [0..<50]))
   \<and> length (apply_op (OpAdd 50 ''new'')
        (run_ops (map (\<lambda>n. OpAdd (int n) (show_nat n)) [0..<50]))) = 50"
proof -
  let ?H = "run_ops (map (\<lambda>n. OpAdd (int n) (show_nat n)) [0..<50])"
  have l: "length ?H = 50" by code_simp
  have t: "trim ''new'' \<noteq> []" by code_simp
  have n: "''new'' \<notin> content_item ` set ?H" by code_simp
  have p: "createPreview ''new'' = ''new''" by code_simp
  from history_capped_at_50[where h = ?H and c = "''new''" and now = 50] t n p
  have e: "addToHistory 50 ''new'' ?H
        = \<lparr>content_item = ''new'', timestamp = 50, preview = ''new''\<rparr> # take 49 ?H"
    by simp
  show ?thesis using l e by simp
qed

text \<open>
  Claim C10. Adding the empty string, or a string of white space only, returns the list
  as it was: no entry is added, none moves and no time stamp changes.
\<close>

theorem addToHistory_blank:
  "\<forall>ch\<in>set c. is_space ch \<Longrightarrow> addToHistory now c history = history"
  by (simp add: addToHistory_def trim_Nil_iff)

theorem addToHistory_blank_witness:
  "addToHistory 7 [CHR '' '', CHR 0x09, CHR 0x0A]
       [\<lparr>content_item = ''x'', timestamp = 1, preview = ''x''\<rparr>]
     = [\<lparr>content_item = ''x'', timestamp = 1, preview = ''x''\<rparr>]
   \<and> addToHistory 7 [] [] = []"
  using addToHistory_blank[of "[CHR '' '', CHR 0x09, CHR 0x0A]" 7
          "[\<lparr>content_item = ''x'', timestamp = 1, preview = ''x''\<rparr>]"]
    addToHistory_blank[of "[]" 7 "[]"]
  by (simp add: is_space_def)

end
